theory Spec2Isabelle
  imports Complex_Main "HOL-Library.Log_Nat"
begin

section \<open>Single-precision arithmetic\<close>

text \<open>
  The program computes with the C type \<^verbatim>\<open>float\<close>. It is modelled as IEC 60559 binary32
  with the default rounding (to nearest, ties to even), each operation rounded to
  binary32 on its own (C Annex F, \<^verbatim>\<open>FLT_EVAL_METHOD\<close> 0, no contraction of the product
  and the sum into one fused operation).

  A value is a NaN, an infinity with its sign, or a finite number with its sign bit
  (\<open>True\<close> for negative) and its magnitude, an exact rational. The two zeros are
  \<open>Finite False 0\<close> and \<open>Finite True 0\<close>. The magnitude is read through its absolute
  value, so that every value of the type denotes a number; the operations only ever
  build magnitudes that are not negative.
\<close>

datatype f32 = NaN | Infinity bool | Finite bool rat

fun valof :: "bool \<Rightarrow> rat \<Rightarrow> rat" where
  "valof s m = (if s then - \<bar>m\<bar> else \<bar>m\<bar>)"

definition pow2 :: "int \<Rightarrow> rat" where
  "pow2 e = (if 0 \<le> e then 2 ^ nat e else 1 / 2 ^ nat (- e))"

text \<open>Rounding a rational to the nearest integer, a tie going to the even neighbour.\<close>

definition round_half_even :: "rat \<Rightarrow> int" where
  "round_half_even x =
     (let f = \<lfloor>x\<rfloor>; r = x - of_int f
      in if r < 1 / 2 then f else if 1 / 2 < r then f + 1 else if even f then f else f + 1)"

text \<open>The binary exponent \<open>\<lfloor>log\<^sub>2 q\<rfloor>\<close> of a positive rational, from the bit lengths of its
  numerator and denominator.\<close>

definition ilog2 :: "rat \<Rightarrow> int" where
  "ilog2 q = (let (a, b) = quotient_of q; d = bitlen a - bitlen b
              in if pow2 d \<le> q then d else d - 1)"

text \<open>
  A binary format with \<open>p\<close> significant bits whose least subnormal is \<open>2 ^ emin\<close>: the
  numbers representable near a magnitude \<open>q\<close> are the multiples of \<open>2 ^ quantum p emin q\<close>,
  and \<open>round_mag\<close> rounds \<open>q\<close> to the nearest of them.
\<close>

definition quantum :: "nat \<Rightarrow> int \<Rightarrow> rat \<Rightarrow> int" where
  "quantum p emin q = max (ilog2 q - (int p - 1)) emin"

definition round_mag :: "nat \<Rightarrow> int \<Rightarrow> rat \<Rightarrow> rat" where
  "round_mag p emin q =
     (if q = 0 then 0
      else let e = quantum p emin q in of_int (round_half_even (q / pow2 e)) * pow2 e)"

text \<open>Rounding a non-zero exact result to binary32: 24 significant bits, least
  subnormal \<open>2 ^ -149\<close>, overflow to an infinity from \<open>2 ^ 128\<close> on.\<close>

definition round_f32 :: "rat \<Rightarrow> f32" where
  "round_f32 v =
     (let r = round_mag 24 (- 149) \<bar>v\<bar>
      in if pow2 128 \<le> r then Infinity (v < 0) else Finite (v < 0) r)"

fun f32_add :: "f32 \<Rightarrow> f32 \<Rightarrow> f32" where
  "f32_add NaN y = NaN"
| "f32_add x NaN = NaN"
| "f32_add (Infinity s) (Infinity t) = (if s = t then Infinity s else NaN)"
| "f32_add (Infinity s) (Finite t k) = Infinity s"
| "f32_add (Finite s m) (Infinity t) = Infinity t"
| "f32_add (Finite s m) (Finite t k) =
     (let v = valof s m + valof t k
      in if v = 0 then Finite (s \<and> t) 0 else round_f32 v)"

fun f32_mul :: "f32 \<Rightarrow> f32 \<Rightarrow> f32" where
  "f32_mul NaN y = NaN"
| "f32_mul x NaN = NaN"
| "f32_mul (Infinity s) (Infinity t) = Infinity (s \<noteq> t)"
| "f32_mul (Infinity s) (Finite t k) = (if k = 0 then NaN else Infinity (s \<noteq> t))"
| "f32_mul (Finite s m) (Infinity t) = (if m = 0 then NaN else Infinity (s \<noteq> t))"
| "f32_mul (Finite s m) (Finite t k) =
     (let v = valof s m * valof t k
      in if v = 0 then Finite (s \<noteq> t) 0 else round_f32 v)"

text \<open>The comparisons \<^verbatim>\<open><=\<close> and \<^verbatim>\<open><\<close>: false as soon as an operand is a NaN, and
  blind to the sign of a zero.\<close>

fun f32_le :: "f32 \<Rightarrow> f32 \<Rightarrow> bool" where
  "f32_le NaN y = False"
| "f32_le x NaN = False"
| "f32_le (Infinity s) (Infinity t) = (if t then s else True)"
| "f32_le (Infinity s) (Finite t k) = s"
| "f32_le (Finite s m) (Infinity t) = (if t then False else True)"
| "f32_le (Finite s m) (Finite t k) = (valof s m \<le> valof t k)"

fun f32_lt :: "f32 \<Rightarrow> f32 \<Rightarrow> bool" where
  "f32_lt NaN y = False"
| "f32_lt x NaN = False"
| "f32_lt (Infinity s) (Infinity t) = (if t then False else s)"
| "f32_lt (Infinity s) (Finite t k) = s"
| "f32_lt (Finite s m) (Infinity t) = (if t then False else True)"
| "f32_lt (Finite s m) (Finite t k) = (valof s m < valof t k)"

definition f32_ge :: "f32 \<Rightarrow> f32 \<Rightarrow> bool" where
  "f32_ge x y = f32_le y x"

text \<open>
  Conversions. An integer constant and a \<^verbatim>\<open>double\<close> constant initialising a \<^verbatim>\<open>float\<close>
  are converted by rounding their value to binary32; a decimal constant such as
  \<^verbatim>\<open>0.1\<close> is first the \<^verbatim>\<open>double\<close> nearest to it (53 significant bits, least subnormal
  \<open>2 ^ -1074\<close>; the constants of this program are far from the overflow of
  \<^verbatim>\<open>double\<close>).
\<close>

definition f32_of_rat :: "rat \<Rightarrow> f32" where
  "f32_of_rat v = (if v = 0 then Finite False 0 else round_f32 v)"

definition f32_of_int :: "int \<Rightarrow> f32" where
  "f32_of_int n = f32_of_rat (of_int n)"

definition double_const :: "rat \<Rightarrow> rat" where
  "double_const q = (if q < 0 then - round_mag 53 (- 1074) (- q) else round_mag 53 (- 1074) q)"

definition f32_of_double :: "rat \<Rightarrow> f32" where
  "f32_of_double d = f32_of_rat d"

section \<open>Memory\<close>

text \<open>
  An array parameter of C is a pointer into an array object of the caller. The store
  is a list of array objects, a pointer is the number of the object it designates, and a
  read outside the object (undefined behaviour in C) is the value \<open>None\<close>. Standard
  output is the text written so far.
\<close>

datatype error = OutOfBounds

record world =
  heap :: "f32 list list"
  stdout :: string

definition load :: "world \<Rightarrow> nat \<Rightarrow> int \<Rightarrow> f32 option" where
  "load w p k =
     (if p < length (heap w) \<and> 0 \<le> k \<and> nat k < length (heap w ! p)
      then Some (heap w ! p ! nat k) else None)"

section \<open>The program\<close>

text \<open>\<^verbatim>\<open>int step_function(float x) { return (x >= 0) ? 1 : 0; }\<close>\<close>

definition step_function :: "f32 \<Rightarrow> int" where
  "step_function x = (if f32_ge x (f32_of_int 0) then 1 else 0)"

text \<open>
  The state of a call of \<^verbatim>\<open>perceptron\<close>: the world it runs in and its two local
  variables \<^verbatim>\<open>sum\<close> and \<^verbatim>\<open>i\<close>. The counts and the index are C \<^verbatim>\<open>int\<close>s, modelled as
  unbounded integers: \<^verbatim>\<open>i++\<close> runs only while \<^verbatim>\<open>i < num_inputs\<close>, so it never
  overflows.
\<close>

record frame =
  mem :: world
  loc_sum :: f32
  loc_i :: int

text \<open>
  \<^verbatim>\<open>for (int i = 0; i < num_inputs; i++) { sum += inputs[i] * weights[i]; }\<close>
  from the state reached after the initialisation of \<^verbatim>\<open>i\<close>.
\<close>

function perceptron_loop :: "nat \<Rightarrow> nat \<Rightarrow> int \<Rightarrow> frame \<Rightarrow> error + frame" where
  "perceptron_loop inputs weights num_inputs \<sigma> =
     (if loc_i \<sigma> < num_inputs then
        (case load (mem \<sigma>) inputs (loc_i \<sigma>) of
           None \<Rightarrow> Inl OutOfBounds
         | Some x \<Rightarrow>
            (case load (mem \<sigma>) weights (loc_i \<sigma>) of
               None \<Rightarrow> Inl OutOfBounds
             | Some y \<Rightarrow>
                 perceptron_loop inputs weights num_inputs
                   (\<sigma>\<lparr>loc_sum := f32_add (loc_sum \<sigma>) (f32_mul x y),
                      loc_i := loc_i \<sigma> + 1\<rparr>)))
      else Inr \<sigma>)"
  by pat_completeness auto
termination
  by (relation "measure (\<lambda>(inputs, weights, num_inputs, \<sigma>). nat (num_inputs - loc_i \<sigma>))") auto

declare perceptron_loop.simps [simp del]

definition perceptron :: "world \<Rightarrow> nat \<Rightarrow> nat \<Rightarrow> f32 \<Rightarrow> int \<Rightarrow> error + (int \<times> world)" where
  "perceptron w inputs weights bias num_inputs =
     (case perceptron_loop inputs weights num_inputs \<lparr>mem = w, loc_sum = bias, loc_i = 0\<rparr> of
        Inl e \<Rightarrow> Inl e
      | Inr \<sigma> \<Rightarrow> Inr (step_function (loc_sum \<sigma>), mem \<sigma>))"

text \<open>The value of \<^verbatim>\<open>sum\<close> when the loop of \<^verbatim>\<open>perceptron\<close> is left: the weighted sum.\<close>

definition weighted_sum :: "world \<Rightarrow> nat \<Rightarrow> nat \<Rightarrow> f32 \<Rightarrow> int \<Rightarrow> error + f32" where
  "weighted_sum w inputs weights bias num_inputs =
     (case perceptron_loop inputs weights num_inputs \<lparr>mem = w, loc_sum = bias, loc_i = 0\<rparr> of
        Inl e \<Rightarrow> Inl e
      | Inr \<sigma> \<Rightarrow> Inr (loc_sum \<sigma>))"

text \<open>\<^verbatim>\<open>printf\<close> with the conversion \<^verbatim>\<open>%d\<close>: the decimal digits of an \<^verbatim>\<open>int\<close>, after
  a minus sign when it is negative.\<close>

definition digit_char :: "nat \<Rightarrow> char" where
  "digit_char d = ''0123456789'' ! d"

fun nat_digits :: "nat \<Rightarrow> string" where
  "nat_digits n =
     (if n < 10 then [digit_char n] else nat_digits (n div 10) @ [digit_char (n mod 10)])"

declare nat_digits.simps [simp del]

definition printf_d :: "int \<Rightarrow> string" where
  "printf_d n = (if n < 0 then CHR ''-'' # nat_digits (nat (- n)) else nat_digits (nat n))"

text \<open>
  \<^verbatim>\<open>main\<close>: the two local arrays are new objects of the store for the time of the
  call, the result of \<^verbatim>\<open>perceptron\<close> is printed on a line of its own, and the exit
  code is 0.
\<close>

definition main_c :: "world \<Rightarrow> error + (int \<times> world)" where
  "main_c w =
     (let inputs = length (heap w);
          weights = length (heap w) + 1;
          w1 = w\<lparr>heap := heap w @
                 [[f32_of_int 0, f32_of_int 1],
                  [f32_of_double (double_const (1 / 2)), f32_of_double (- double_const (1 / 2))]]\<rparr>;
          bias = f32_of_double (double_const (1 / 10))
      in case perceptron w1 inputs weights bias 2 of
           Inl e \<Rightarrow> Inl e
         | Inr (output, w2) \<Rightarrow>
             Inr (0, w2\<lparr>heap := take (length (heap w)) (heap w2),
                        stdout := stdout w2 @ ''Perceptron Output: '' @ printf_d output @ [CHR 0x0A]\<rparr>))"

section \<open>The specification's weighted sum\<close>

text \<open>
  The weighted sum as the specification words it: an accumulator that starts as the
  bias and to which \<open>input[k] \<times> weight[k]\<close> is added for \<open>k\<close> from 0 to \<open>N - 1\<close>, in
  ascending order.
\<close>

definition weighted_sum_spec :: "f32 list \<Rightarrow> f32 list \<Rightarrow> f32 \<Rightarrow> nat \<Rightarrow> f32" where
  "weighted_sum_spec xs ws bias n =
     foldl (\<lambda>acc k. f32_add acc (f32_mul (xs ! k) (ws ! k))) bias [0..<n]"

text \<open>
  The relation kept between the accumulators of two runs of which the second has one
  input raised: the first is already lost to a NaN or to minus infinity, or it is at most
  the second.
\<close>

definition dominated :: "f32 \<Rightarrow> f32 \<Rightarrow> bool" where
  "dominated x y = (if x = NaN then True else if x = Infinity True then True else f32_le x y)"

section \<open>Properties of the rounding\<close>

lemma pow2_power_int: "pow2 e = power_int 2 e"
  by (simp add: pow2_def power_int_def inverse_eq_divide power_one_over)

lemma pow2_pos: "0 < pow2 e"
  by (simp add: pow2_power_int)

lemma pow2_add: "pow2 (a + b) = pow2 a * pow2 b"
  by (simp add: pow2_power_int power_int_add)

lemma pow2_mono: "a \<le> b \<Longrightarrow> pow2 a \<le> pow2 b"
  by (simp add: pow2_power_int power_int_increasing)

lemma pow2_nat: "pow2 (int n) = of_int (2 ^ n)"
  by (simp add: pow2_def)

lemma rhe_of_int: "round_half_even (of_int n) = n"
  by (simp add: round_half_even_def)

lemma rhe_bounds: "\<lfloor>x\<rfloor> \<le> round_half_even x \<and> round_half_even x \<le> \<lfloor>x\<rfloor> + 1"
  by (simp add: round_half_even_def Let_def)

lemma rhe_mono:
  assumes "x \<le> y"
  shows "round_half_even x \<le> round_half_even y"
proof (cases "\<lfloor>x\<rfloor> = \<lfloor>y\<rfloor>")
  case True
  with assms show ?thesis
    by (auto simp add: round_half_even_def Let_def)
next
  case False
  with assms have "\<lfloor>x\<rfloor> + 1 \<le> \<lfloor>y\<rfloor>"
    using floor_mono [of x y] by linarith
  then show ?thesis
    using rhe_bounds [of x] rhe_bounds [of y] by linarith
qed

lemma ilog2_bounds:
  assumes "0 < q"
  shows "pow2 (ilog2 q) \<le> q \<and> q < pow2 (ilog2 q + 1)"
proof -
  obtain a b where ab: "quotient_of q = (a, b)"
    by (cases "quotient_of q")
  have b: "0 < b" using ab by (rule quotient_of_denom_pos)
  have q: "q = of_int a / of_int b" using ab by (rule quotient_of_div)
  have a: "0 < a" using assms b q by (simp add: zero_less_divide_iff)
  have la: "1 \<le> bitlen a" and lb: "1 \<le> bitlen b"
    using a b bitlen_eq_zero_iff [of a] bitlen_eq_zero_iff [of b] bitlen_nonneg [of a] bitlen_nonneg [of b]
    by linarith+
  have "2 ^ nat (bitlen a - 1) \<le> a" "a < 2 ^ nat (bitlen a)"
    using bitlen_bounds [OF a] by simp_all
  then have "(of_int (2 ^ nat (bitlen a - 1)) :: rat) \<le> of_int a" "(of_int a :: rat) < of_int (2 ^ nat (bitlen a))"
    by (simp_all only: of_int_le_iff of_int_less_iff)
  then have a1: "pow2 (bitlen a - 1) \<le> of_int a" and a2: "of_int a < pow2 (bitlen a)"
    using la by (simp_all add: pow2_def)
  have "2 ^ nat (bitlen b - 1) \<le> b" "b < 2 ^ nat (bitlen b)"
    using bitlen_bounds [OF b] by simp_all
  then have "(of_int (2 ^ nat (bitlen b - 1)) :: rat) \<le> of_int b" "(of_int b :: rat) < of_int (2 ^ nat (bitlen b))"
    by (simp_all only: of_int_le_iff of_int_less_iff)
  then have b1: "pow2 (bitlen b - 1) \<le> of_int b" and b2: "of_int b < pow2 (bitlen b)"
    using lb by (simp_all add: pow2_def)
  define d where "d = bitlen a - bitlen b"
  have bpos: "(0::rat) < of_int b" using b by simp
  have "q * of_int b = of_int a" using q bpos by simp
  have up: "q < pow2 (d + 1)"
  proof -
    have "pow2 (d + 1) * pow2 (bitlen b - 1) = pow2 (bitlen a)"
      by (simp add: d_def pow2_add [symmetric])
    then have "of_int a < pow2 (d + 1) * pow2 (bitlen b - 1)" using a2 by simp
    also have "\<dots> \<le> pow2 (d + 1) * of_int b"
      using b1 pow2_pos [of "d + 1"] by (simp add: mult_left_mono)
    finally have "q * of_int b < pow2 (d + 1) * of_int b"
      using \<open>q * of_int b = of_int a\<close> by simp
    then show ?thesis using bpos by (simp add: mult_less_cancel_right)
  qed
  have lo: "pow2 (d - 1) \<le> q"
  proof -
    have "pow2 (d - 1) * pow2 (bitlen b) = pow2 (bitlen a - 1)"
      by (simp add: d_def pow2_add [symmetric])
    have "pow2 (d - 1) * of_int b \<le> pow2 (d - 1) * pow2 (bitlen b)"
      using b2 pow2_pos [of "d - 1"] by (simp add: mult_left_mono)
    also have "\<dots> \<le> of_int a"
      using a1 \<open>pow2 (d - 1) * pow2 (bitlen b) = pow2 (bitlen a - 1)\<close> by simp
    finally have "pow2 (d - 1) * of_int b \<le> q * of_int b"
      using \<open>q * of_int b = of_int a\<close> by simp
    then show ?thesis using bpos by (simp add: mult_le_cancel_right)
  qed
  have il: "ilog2 q = (if pow2 d \<le> q then d else d - 1)"
    by (simp add: ilog2_def ab d_def Let_def)
  show ?thesis
  proof (cases "pow2 d \<le> q")
    case True
    then show ?thesis using up il by simp
  next
    case False
    then show ?thesis using lo il by simp
  qed
qed

lemma rhe_nonneg: "0 \<le> x \<Longrightarrow> 0 \<le> round_half_even x"
  using rhe_mono [of 0 x] rhe_of_int [of 0] by simp

lemma quantum_upper:
  assumes "0 < q"
  shows "q < pow2 (quantum p emin q + int p)"
proof -
  have "ilog2 q + 1 \<le> quantum p emin q + int p"
    by (simp add: quantum_def)
  then have "pow2 (ilog2 q + 1) \<le> pow2 (quantum p emin q + int p)"
    by (rule pow2_mono)
  then show ?thesis using ilog2_bounds [OF assms] by linarith
qed

lemma quantum_lower:
  assumes "0 < q" and "emin < quantum p emin q"
  shows "pow2 (quantum p emin q + int p - 1) \<le> q"
proof -
  have "quantum p emin q = ilog2 q - (int p - 1)"
    using assms(2) by (simp add: quantum_def max_def split: if_splits)
  then have "quantum p emin q + int p - 1 = ilog2 q" by simp
  then show ?thesis using ilog2_bounds [OF assms(1)] by simp
qed

lemma grid_fixed: "of_int (round_half_even (pow2 (e + int n) / pow2 e)) * pow2 e = pow2 (e + int n)"
proof -
  have "pow2 (e + int n) / pow2 e = of_int (2 ^ n)"
    using pow2_pos [of e] by (simp add: pow2_add pow2_nat)
  then show ?thesis
    by (simp only: rhe_of_int) (simp add: pow2_add pow2_nat)
qed

lemma grid_mono:
  assumes "x \<le> y"
  shows "of_int (round_half_even (x / pow2 e)) * pow2 e \<le> of_int (round_half_even (y / pow2 e)) * pow2 e"
proof -
  have "x / pow2 e \<le> y / pow2 e"
    using assms pow2_pos [of e] by (simp add: divide_right_mono)
  then have "round_half_even (x / pow2 e) \<le> round_half_even (y / pow2 e)"
    by (rule rhe_mono)
  then show ?thesis
    using pow2_pos [of e] by (simp add: mult_right_mono)
qed

lemma round_mag_nonneg:
  assumes "0 \<le> q"
  shows "0 \<le> round_mag p emin q"
proof (cases "q = 0")
  case True
  then show ?thesis by (simp add: round_mag_def)
next
  case False
  define e where "e = quantum p emin q"
  have "0 \<le> q / pow2 e" using assms pow2_pos [of e] by simp
  then have "0 \<le> round_half_even (q / pow2 e)" by (rule rhe_nonneg)
  then have "0 \<le> of_int (round_half_even (q / pow2 e)) * pow2 e"
    using pow2_pos [of e] by simp
  then show ?thesis using False by (simp add: round_mag_def e_def Let_def)
qed

lemma round_mag_mono:
  assumes p: "1 \<le> p" and q1: "0 \<le> q1" and le: "q1 \<le> q2"
  shows "round_mag p emin q1 \<le> round_mag p emin q2"
proof (cases "q1 = 0")
  case True
  then show ?thesis
    using round_mag_nonneg [of q2 p emin] le by (simp add: round_mag_def)
next
  case False
  then have pos1: "0 < q1" and pos2: "0 < q2" using q1 le by simp_all
  define e1 where "e1 = quantum p emin q1"
  define e2 where "e2 = quantum p emin q2"
  have r1: "round_mag p emin q1 = of_int (round_half_even (q1 / pow2 e1)) * pow2 e1"
    using pos1 by (simp add: round_mag_def e1_def Let_def)
  have r2: "round_mag p emin q2 = of_int (round_half_even (q2 / pow2 e2)) * pow2 e2"
    using pos2 by (simp add: round_mag_def e2_def Let_def)
  have emin1: "emin \<le> e1" and emin2: "emin \<le> e2"
    by (simp_all add: e1_def e2_def quantum_def)
  have up1: "q1 < pow2 (e1 + int p)" and up2: "q2 < pow2 (e2 + int p)"
    using quantum_upper pos1 pos2 by (simp_all add: e1_def e2_def)
  consider "e1 = e2" | "e1 < e2" | "e2 < e1" by linarith
  then show ?thesis
  proof cases
    case 1
    then show ?thesis using grid_mono [OF le] by (simp add: r1 r2)
  next
    case 2
    have "round_mag p emin q1 \<le> pow2 (e1 + int p)"
      using grid_mono [of q1 "pow2 (e1 + int p)" e1] up1 grid_fixed [of e1 p] by (simp add: r1)
    also have "\<dots> \<le> pow2 (e2 + int (p - 1))"
      using 2 p by (intro pow2_mono) linarith
    also have "\<dots> \<le> round_mag p emin q2"
    proof -
      have eq: "e2 + int (p - 1) = e2 + int p - 1" using p by linarith
      have "emin < quantum p emin q2" using emin1 2 by (simp only: e2_def)
      then have "pow2 (e2 + int p - 1) \<le> q2"
        unfolding e2_def by (rule quantum_lower [OF pos2])
      then have "pow2 (e2 + int (p - 1)) \<le> q2" by (simp only: eq)
      then show ?thesis
        using grid_mono [of "pow2 (e2 + int (p - 1))" q2 e2] grid_fixed [of e2 "p - 1"]
        by (simp add: r2)
    qed
    finally show ?thesis .
  next
    case 3
    have "q2 < pow2 (e2 + int p)" by (rule up2)
    also have "\<dots> \<le> pow2 (e1 + int p - 1)"
      using 3 by (intro pow2_mono) linarith
    also have "\<dots> \<le> q1"
    proof -
      have "emin < quantum p emin q1" using emin2 3 by (simp only: e1_def)
      then show ?thesis unfolding e1_def by (rule quantum_lower [OF pos1])
    qed
    finally show ?thesis using le by simp
  qed
qed

lemma round_f32_le:
  assumes "v1 \<le> v2"
  shows "f32_le (if v1 = 0 then Finite z1 0 else round_f32 v1)
                (if v2 = 0 then Finite z2 0 else round_f32 v2)"
proof -
  define r1 where "r1 = round_mag 24 (- 149) \<bar>v1\<bar>"
  define r2 where "r2 = round_mag 24 (- 149) \<bar>v2\<bar>"
  have n1: "0 \<le> r1" and n2: "0 \<le> r2"
    by (simp_all add: r1_def r2_def round_mag_nonneg)
  have pos: "0 < v1 \<Longrightarrow> r1 \<le> r2"
    using assms unfolding r1_def r2_def by (intro round_mag_mono) simp_all
  have neg: "v2 < 0 \<Longrightarrow> r2 \<le> r1"
    using assms unfolding r1_def r2_def by (intro round_mag_mono) simp_all
  have f1: "round_f32 v1 = (if pow2 128 \<le> r1 then Infinity (v1 < 0) else Finite (v1 < 0) r1)"
    by (simp add: round_f32_def r1_def Let_def)
  have f2: "round_f32 v2 = (if pow2 128 \<le> r2 then Infinity (v2 < 0) else Finite (v2 < 0) r2)"
    by (simp add: round_f32_def r2_def Let_def)
  consider "v1 = 0" "v2 = 0" | "v1 = 0" "0 < v2" | "v1 < 0" "v2 = 0" | "v1 < 0" "0 < v2"
    | "0 < v1" "0 < v2" | "v1 < 0" "v2 < 0"
    using assms by linarith
  then show ?thesis
  proof cases
    case 1 then show ?thesis by simp
  next
    case 2 then show ?thesis using n2 by (simp add: f2)
  next
    case 3 then show ?thesis using n1 by (simp add: f1)
  next
    case 4 then show ?thesis using n1 n2 by (simp add: f1 f2)
  next
    case 5 then show ?thesis using pos n1 n2 by (simp add: f1 f2)
  next
    case 6 then show ?thesis using neg n1 n2 by (simp add: f1 f2)
  qed
qed

section \<open>The rounding is to nearest, onto binary32\<close>

text \<open>
  The rounded magnitude is a multiple of the quantum at most half a quantum away from the
  exact one, a tie goes to the even multiple, and every finite result of an operation
  is a binary32 number: \<open>n \<times> 2\<^sup>e\<close> with \<open>n < 2\<^sup>2\<^sup>4\<close> and \<open>-149 \<le> e \<le> 104\<close>.
\<close>

lemma rhe_nearest: "\<bar>x - of_int (round_half_even x)\<bar> \<le> 1 / 2"
proof -
  have "of_int \<lfloor>x\<rfloor> \<le> x" and "x < of_int \<lfloor>x\<rfloor> + 1"
    by linarith+
  then show ?thesis
    by (auto simp add: round_half_even_def Let_def)
qed

lemma rhe_tie_even:
  assumes "\<bar>x - of_int (round_half_even x)\<bar> = 1 / 2"
  shows "even (round_half_even x)"
proof -
  have "of_int \<lfloor>x\<rfloor> \<le> x" and "x < of_int \<lfloor>x\<rfloor> + 1"
    by linarith+
  then show ?thesis
    using assms by (auto simp add: round_half_even_def Let_def split: if_splits)
qed

lemma round_mag_nearest:
  assumes "0 < q"
  shows "\<bar>q - round_mag p emin q\<bar> \<le> pow2 (quantum p emin q) / 2"
proof -
  define e where "e = quantum p emin q"
  define n where "n = round_half_even (q / pow2 e)"
  have r: "round_mag p emin q = of_int n * pow2 e"
    using assms by (simp add: round_mag_def e_def n_def Let_def)
  have "q - of_int n * pow2 e = (q / pow2 e - of_int n) * pow2 e"
    using pow2_pos [of e] by (simp add: field_simps)
  then have "\<bar>q - of_int n * pow2 e\<bar> = \<bar>q / pow2 e - of_int n\<bar> * pow2 e"
    using pow2_pos [of e] by (simp add: abs_mult)
  also have "\<dots> \<le> (1 / 2) * pow2 e"
    using rhe_nearest [of "q / pow2 e"] pow2_pos [of e]
    unfolding n_def by (intro mult_right_mono) simp_all
  finally show ?thesis by (simp add: r e_def)
qed

lemma round_mag_grid:
  assumes "0 < q"
  shows "\<exists>n. 0 \<le> n \<and> n \<le> 2 ^ p \<and> round_mag p emin q = of_int n * pow2 (quantum p emin q)"
proof -
  define e where "e = quantum p emin q"
  define n where "n = round_half_even (q / pow2 e)"
  have r: "round_mag p emin q = of_int n * pow2 e"
    using assms by (simp add: round_mag_def e_def n_def Let_def)
  have "0 \<le> q / pow2 e" using assms pow2_pos [of e] by simp
  then have n0: "0 \<le> n" unfolding n_def by (rule rhe_nonneg)
  have "q < pow2 (e + int p)" unfolding e_def using assms by (rule quantum_upper)
  then have "q / pow2 e \<le> of_int (2 ^ p)"
    using pow2_pos [of e] by (simp add: pow2_add pow2_nat field_simps)
  then have "n \<le> round_half_even (of_int (2 ^ p))"
    unfolding n_def by (rule rhe_mono)
  then have "n \<le> 2 ^ p" by (simp only: rhe_of_int)
  then show ?thesis using n0 r unfolding e_def by blast
qed

lemma round_f32_binary32:
  assumes "round_f32 v = Finite s r"
  shows "\<exists>n e. r = of_int n * pow2 e \<and> 0 \<le> n \<and> n < 2 ^ 24 \<and> - 149 \<le> e \<and> e \<le> 104"
proof (cases "v = 0")
  case True
  then have "r = 0" using assms by (simp add: round_f32_def round_mag_def pow2_def split: if_splits)
  then have "r = of_int 0 * pow2 0 \<and> (0::int) \<le> 0 \<and> (0::int) < 2 ^ 24 \<and> - 149 \<le> (0::int) \<and> (0::int) \<le> 104"
    by simp
  then show ?thesis by blast
next
  case False
  define q where "q = \<bar>v\<bar>"
  define e where "e = quantum 24 (- 149) q"
  have q: "0 < q" using False by (simp add: q_def)
  have r: "r = round_mag 24 (- 149) q" and small: "r < pow2 128"
    using assms by (simp_all add: round_f32_def q_def Let_def split: if_splits)
  obtain n where n: "0 \<le> n" "n \<le> 2 ^ 24" "r = of_int n * pow2 e"
    using round_mag_grid [OF q, of 24 "- 149"] r e_def by auto
  have emin: "- 149 \<le> e" by (simp add: e_def quantum_def)
  have big: "pow2 (e + 23) \<le> r" if "- 149 < e"
  proof -
    have "pow2 (e + int 24 - 1) \<le> q"
      using that unfolding e_def by (intro quantum_lower [OF q]) simp
    moreover have "e + int 24 - 1 = e + int 23" by simp
    ultimately have "pow2 (e + int 23) \<le> q" by (simp only:)
    then have "of_int (round_half_even (pow2 (e + int 23) / pow2 e)) * pow2 e
               \<le> of_int (round_half_even (q / pow2 e)) * pow2 e"
      by (rule grid_mono)
    then have "pow2 (e + int 23) \<le> of_int (round_half_even (q / pow2 e)) * pow2 e"
      by (simp only: grid_fixed)
    moreover have "r = of_int (round_half_even (q / pow2 e)) * pow2 e"
      using q by (simp add: r round_mag_def e_def Let_def)
    ultimately have "pow2 (e + int 23) \<le> r" by (simp only:)
    then show ?thesis by simp
  qed
  have e_top: "e + 23 < 128"
  proof (rule ccontr)
    assume "\<not> e + 23 < 128"
    then have "128 \<le> e + 23" by simp
    then have "pow2 128 \<le> pow2 (e + 23)" by (rule pow2_mono)
    moreover have "- 149 < e" using \<open>128 \<le> e + 23\<close> by simp
    ultimately show False using big small by simp
  qed
  show ?thesis
  proof (cases "n = 2 ^ 24")
    case False
    then have "n < 2 ^ 24" using n(2) by simp
    moreover have "e \<le> 104" using e_top by simp
    ultimately show ?thesis using n emin by blast
  next
    case True
    have "pow2 1 = 2" by (simp add: pow2_def)
    then have "pow2 (e + 1) = pow2 e * 2" by (simp add: pow2_add)
    then have "r = of_int (2 ^ 23) * pow2 (e + 1)"
      using n(3) True by simp
    moreover have "e + 1 \<le> 104"
    proof (rule ccontr)
      assume "\<not> e + 1 \<le> 104"
      then have "128 \<le> e + int 24" by simp
      then have "pow2 128 \<le> pow2 (e + int 24)" by (rule pow2_mono)
      also have "\<dots> = r"
      proof -
        have "pow2 (int 24) = of_int (2 ^ 24)" by (rule pow2_nat)
        then show ?thesis using n(3) True by (simp only: pow2_add) simp
      qed
      finally show False using small by simp
    qed
    moreover have "(0::int) \<le> 2 ^ 23" "(2::int) ^ 23 < 2 ^ 24" "- 149 \<le> e + 1"
      using emin by simp_all
    ultimately show ?thesis by blast
  qed
qed

lemma zero_binary32:
  "\<exists>n e. (0::rat) = of_int n * pow2 e \<and> 0 \<le> n \<and> n < 2 ^ 24 \<and> - 149 \<le> e \<and> e \<le> 104"
proof -
  have "(0::rat) = of_int 0 * pow2 0 \<and> (0::int) \<le> 0 \<and> (0::int) < 2 ^ 24 \<and> - 149 \<le> (0::int) \<and> (0::int) \<le> 104"
    by simp
  then show ?thesis by blast
qed

lemma f32_add_binary32:
  assumes "f32_add x y = Finite s r"
  shows "\<exists>n e. r = of_int n * pow2 e \<and> 0 \<le> n \<and> n < 2 ^ 24 \<and> - 149 \<le> e \<and> e \<le> 104"
proof (cases x)
  case NaN
  then show ?thesis using assms by simp
next
  case (Infinity sx)
  then show ?thesis using assms by (cases y) (simp_all split: if_splits)
next
  case X: (Finite sx mx)
  show ?thesis
  proof (cases y)
    case NaN
    then show ?thesis using assms X by simp
  next
    case (Infinity sy)
    then show ?thesis using assms X by simp
  next
    case Y: (Finite sy my)
    show ?thesis
    proof (cases "valof sx mx + valof sy my = 0")
      case True
      then have "r = 0" using assms unfolding X Y f32_add.simps Let_def by simp
      then show ?thesis using zero_binary32 by simp
    next
      case False
      then have "round_f32 (valof sx mx + valof sy my) = Finite s r"
        using assms unfolding X Y f32_add.simps Let_def by simp
      then show ?thesis by (rule round_f32_binary32)
    qed
  qed
qed

lemma f32_mul_binary32:
  assumes "f32_mul x y = Finite s r"
  shows "\<exists>n e. r = of_int n * pow2 e \<and> 0 \<le> n \<and> n < 2 ^ 24 \<and> - 149 \<le> e \<and> e \<le> 104"
proof (cases x)
  case NaN
  then show ?thesis using assms by simp
next
  case (Infinity sx)
  then show ?thesis using assms by (cases y) (simp_all split: if_splits)
next
  case X: (Finite sx mx)
  show ?thesis
  proof (cases y)
    case NaN
    then show ?thesis using assms X by simp
  next
    case (Infinity sy)
    then show ?thesis using assms X by (simp split: if_splits)
  next
    case Y: (Finite sy my)
    show ?thesis
    proof (cases "valof sx mx * valof sy my = 0")
      case True
      then have "r = 0" using assms unfolding X Y f32_mul.simps Let_def by simp
      then show ?thesis using zero_binary32 by simp
    next
      case False
      then have "round_f32 (valof sx mx * valof sy my) = Finite s r"
        using assms unfolding X Y f32_mul.simps Let_def by simp
      then show ?thesis by (rule round_f32_binary32)
    qed
  qed
qed

section \<open>Monotonicity of the operations\<close>

lemma f32_add_commute: "f32_add x y = f32_add y x"
  by (cases x; cases y) (auto simp add: Let_def add.commute)

lemma f32_add_finite_le:
  assumes "valof s m \<le> valof t k"
  shows "f32_le (f32_add (Finite s m) (Finite u c)) (f32_add (Finite t k) (Finite u c))"
proof -
  have "valof s m + valof u c \<le> valof t k + valof u c" using assms by simp
  then show ?thesis
    unfolding f32_add.simps Let_def by (rule round_f32_le)
qed

lemma round_f32_not_nan: "round_f32 v \<noteq> NaN"
  by (simp add: round_f32_def Let_def)

lemma f32_add_finite_not_nan: "f32_add (Finite s m) (Finite u c) \<noteq> NaN"
  unfolding f32_add.simps Let_def using round_f32_not_nan by simp

lemma f32_mul_finite_not_nan: "f32_mul (Finite s m) (Finite u c) \<noteq> NaN"
  unfolding f32_mul.simps Let_def using round_f32_not_nan by simp

lemma f32_le_refl_add: "f32_add a t \<noteq> NaN \<Longrightarrow> f32_le (f32_add a t) (f32_add a t)"
  by (cases "f32_add a t") simp_all

lemma dominated_add_right:
  assumes "dominated a1 a2"
  shows "dominated (f32_add a1 t) (f32_add a2 t)"
proof (cases a1)
  case NaN
  then show ?thesis by (simp add: dominated_def)
next
  case (Infinity s1)
  show ?thesis
  proof (cases s1)
    case True
    then show ?thesis using Infinity by (cases t) (simp_all add: dominated_def)
  next
    case False
    then have "a2 = Infinity False"
      using assms Infinity by (cases a2) (simp_all add: dominated_def split: if_splits)
    then show ?thesis using Infinity False by (cases t) (simp_all add: dominated_def)
  qed
next
  case F1: (Finite s m)
  show ?thesis
  proof (cases t)
    case NaN
    then show ?thesis using F1 by (simp add: dominated_def)
  next
    case (Infinity st)
    then show ?thesis using F1 assms
      by (cases a2; cases st) (simp_all add: dominated_def split: if_splits)
  next
    case F3: (Finite u c)
    show ?thesis
    proof (cases a2)
      case NaN
      then show ?thesis using assms F1 by (simp add: dominated_def)
    next
      case (Infinity s2)
      then have s2: "\<not> s2" using assms F1 by (simp add: dominated_def split: if_splits)
      have "f32_add a1 t \<noteq> NaN" unfolding F1 F3 by (rule f32_add_finite_not_nan)
      moreover have "f32_add a2 t = Infinity False" using Infinity s2 F3 by simp
      ultimately show ?thesis
        by (cases "f32_add a1 t") (simp_all add: dominated_def del: f32_add.simps)
    next
      case F2: (Finite s2 m2)
      then have "valof s m \<le> valof s2 m2" using assms F1 by (simp add: dominated_def)
      then have "f32_le (f32_add a1 t) (f32_add a2 t)"
        unfolding F1 F2 F3 by (rule f32_add_finite_le)
      then show ?thesis by (simp add: dominated_def)
    qed
  qed
qed

lemma dominated_trans:
  assumes "dominated x y" and "dominated y z"
  shows "dominated x z"
  using assms
  by (cases x; cases y; cases z) (auto simp add: dominated_def split: if_splits)

lemma dominated_add:
  assumes "dominated a1 a2" and "dominated p1 p2"
  shows "dominated (f32_add a1 p1) (f32_add a2 p2)"
proof -
  have "dominated (f32_add a1 p1) (f32_add a2 p1)"
    using assms(1) by (rule dominated_add_right)
  moreover have "dominated (f32_add p1 a2) (f32_add p2 a2)"
    using assms(2) by (rule dominated_add_right)
  then have "dominated (f32_add a2 p1) (f32_add a2 p2)"
    by (simp only: f32_add_commute [of a2])
  ultimately show ?thesis by (rule dominated_trans)
qed

lemma dominated_refl: "dominated x x"
  by (cases x) (simp_all add: dominated_def)

lemma f32_mul_dominated:
  assumes "f32_lt x x'" and "f32_lt (f32_of_int 0) w"
  shows "dominated (f32_mul x w) (f32_mul x' w)"
proof -
  have z: "f32_of_int 0 = Finite False 0" by (simp add: f32_of_int_def f32_of_rat_def)
  show ?thesis
  proof (cases w)
    case NaN
    then show ?thesis using assms by (simp add: z)
  next
    case (Infinity sw)
    then have "\<not> sw" using assms(2) by (simp add: z split: if_splits)
    then show ?thesis using Infinity assms(1)
      by (cases x; cases x') (auto simp add: dominated_def split: if_splits)
  next
    case W: (Finite sw mw)
    then have wpos: "0 < valof sw mw" using assms(2) by (simp add: z)
    then have mw: "mw \<noteq> 0" by (auto split: if_splits)
    show ?thesis
    proof (cases x)
      case NaN
      then show ?thesis using assms by simp
    next
      case (Infinity sx)
      then show ?thesis using assms(1) W mw wpos
        by (cases x'; cases sx) (auto simp add: dominated_def split: if_splits)
    next
      case X: (Finite sx mx)
      show ?thesis
      proof (cases x')
        case NaN
        then show ?thesis using assms X by simp
      next
        case (Infinity sx')
        then have sx': "\<not> sx'" using assms(1) X by (simp split: if_splits)
        have "f32_mul x w \<noteq> NaN" unfolding X W by (rule f32_mul_finite_not_nan)
        moreover have "f32_mul x' w = Infinity False" using Infinity sx' W mw wpos
          by (auto split: if_splits)
        ultimately show ?thesis
          by (cases "f32_mul x w") (simp_all add: dominated_def del: f32_mul.simps)
      next
        case X': (Finite sx' mx')
        then have "valof sx mx < valof sx' mx'" using assms(1) X by simp
        then have "valof sx mx * valof sw mw \<le> valof sx' mx' * valof sw mw"
          using wpos by (simp add: mult_right_mono)
        then have "f32_le (f32_mul x w) (f32_mul x' w)"
          unfolding X X' W f32_mul.simps Let_def by (rule round_f32_le)
        then show ?thesis by (simp add: dominated_def)
      qed
    qed
  qed
qed

lemma dominated_final:
  assumes "dominated s1 s2"
  shows "\<not> f32_lt s2 s1" and "step_function s1 = 1 \<Longrightarrow> step_function s2 = 1"
proof -
  have z: "f32_of_int 0 = Finite False 0" by (simp add: f32_of_int_def f32_of_rat_def)
  show "\<not> f32_lt s2 s1"
    using assms by (cases s1; cases s2) (auto simp add: dominated_def split: if_splits)
  show "step_function s2 = 1" if "step_function s1 = 1"
    using assms that
    by (cases s1; cases s2) (auto simp add: dominated_def step_function_def f32_ge_def z split: if_splits)
qed

section \<open>The loop\<close>

lemma load_in_bounds:
  "p < length (heap w) \<Longrightarrow> 0 \<le> k \<Longrightarrow> k < int (length (heap w ! p)) \<Longrightarrow>
   load w p k = Some (heap w ! p ! nat k)"
  by (simp add: load_def)

lemma load_out_of_bounds:
  "int (length (heap w ! p)) \<le> k \<Longrightarrow> load w p k = None"
  by (auto simp add: load_def)

lemma perceptron_loop_exit:
  "\<not> loc_i \<sigma> < n \<Longrightarrow> perceptron_loop inputs weights n \<sigma> = Inr \<sigma>"
  by (simp add: perceptron_loop.simps)

lemma perceptron_loop_step:
  assumes "loc_i \<sigma> < n"
    and "load (mem \<sigma>) inputs (loc_i \<sigma>) = Some x"
    and "load (mem \<sigma>) weights (loc_i \<sigma>) = Some y"
  shows "perceptron_loop inputs weights n \<sigma> =
         perceptron_loop inputs weights n
           (\<sigma>\<lparr>loc_sum := f32_add (loc_sum \<sigma>) (f32_mul x y), loc_i := loc_i \<sigma> + 1\<rparr>)"
  using assms by (subst perceptron_loop.simps) simp

lemma perceptron_loop_fault:
  assumes "loc_i \<sigma> < n"
    and "load (mem \<sigma>) inputs (loc_i \<sigma>) = None \<or> load (mem \<sigma>) weights (loc_i \<sigma>) = None"
  shows "perceptron_loop inputs weights n \<sigma> = Inl OutOfBounds"
  using assms by (subst perceptron_loop.simps) (auto split: option.splits)

lemma perceptron_loop_mem:
  "perceptron_loop inputs weights n \<sigma> = Inr \<sigma>' \<Longrightarrow> mem \<sigma>' = mem \<sigma>"
proof (induction inputs weights n \<sigma> rule: perceptron_loop.induct)
  case (1 inputs weights n \<sigma>)
  show ?case
  proof (cases "loc_i \<sigma> < n")
    case False
    then show ?thesis using "1.prems" by (simp add: perceptron_loop_exit)
  next
    case True
    show ?thesis
    proof (cases "load (mem \<sigma>) inputs (loc_i \<sigma>)")
      case None
      then show ?thesis using True "1.prems" by (simp add: perceptron_loop_fault)
    next
      case X: (Some x)
      show ?thesis
      proof (cases "load (mem \<sigma>) weights (loc_i \<sigma>)")
        case None
        then show ?thesis using True "1.prems" by (simp add: perceptron_loop_fault)
      next
        case Y: (Some y)
        have "perceptron_loop inputs weights n
                (\<sigma>\<lparr>loc_sum := f32_add (loc_sum \<sigma>) (f32_mul x y), loc_i := loc_i \<sigma> + 1\<rparr>) = Inr \<sigma>'"
          using "1.prems" perceptron_loop_step [OF True X Y] by simp
        then have "mem \<sigma>' = mem (\<sigma>\<lparr>loc_sum := f32_add (loc_sum \<sigma>) (f32_mul x y), loc_i := loc_i \<sigma> + 1\<rparr>)"
          by (rule "1.IH" [OF True X Y])
        then show ?thesis by simp
      qed
    qed
  qed
qed

lemma perceptron_loop_fold:
  assumes "inputs < length (heap (mem \<sigma>))" and "weights < length (heap (mem \<sigma>))"
    and "0 \<le> loc_i \<sigma>"
    and "n \<le> int (length (heap (mem \<sigma>) ! inputs))"
    and "n \<le> int (length (heap (mem \<sigma>) ! weights))"
  shows "perceptron_loop inputs weights n \<sigma> =
         Inr (\<sigma>\<lparr>loc_sum :=
                  foldl (\<lambda>acc k. f32_add acc
                           (f32_mul (heap (mem \<sigma>) ! inputs ! k) (heap (mem \<sigma>) ! weights ! k)))
                    (loc_sum \<sigma>) [nat (loc_i \<sigma>)..<nat n],
                loc_i := max (loc_i \<sigma>) n\<rparr>)"
  using assms
proof (induction inputs weights n \<sigma> rule: perceptron_loop.induct)
  case (1 inputs weights n \<sigma>)
  show ?case
  proof (cases "loc_i \<sigma> < n")
    case False
    then have "[nat (loc_i \<sigma>)..<nat n] = []" and "max (loc_i \<sigma>) n = loc_i \<sigma>" by simp_all
    then show ?thesis using False by (simp add: perceptron_loop_exit)
  next
    case True
    define x where "x = heap (mem \<sigma>) ! inputs ! nat (loc_i \<sigma>)"
    define y where "y = heap (mem \<sigma>) ! weights ! nat (loc_i \<sigma>)"
    define \<sigma>1 where "\<sigma>1 = \<sigma>\<lparr>loc_sum := f32_add (loc_sum \<sigma>) (f32_mul x y), loc_i := loc_i \<sigma> + 1\<rparr>"
    have X: "load (mem \<sigma>) inputs (loc_i \<sigma>) = Some x"
      unfolding x_def using "1.prems" True by (intro load_in_bounds) simp_all
    have Y: "load (mem \<sigma>) weights (loc_i \<sigma>) = Some y"
      unfolding y_def using "1.prems" True by (intro load_in_bounds) simp_all
    have step: "perceptron_loop inputs weights n \<sigma> = perceptron_loop inputs weights n \<sigma>1"
      unfolding \<sigma>1_def by (rule perceptron_loop_step [OF True X Y])
    have m1: "mem \<sigma>1 = mem \<sigma>" and s1: "loc_sum \<sigma>1 = f32_add (loc_sum \<sigma>) (f32_mul x y)"
      and i1: "loc_i \<sigma>1 = loc_i \<sigma> + 1"
      by (simp_all add: \<sigma>1_def)
    have IH: "perceptron_loop inputs weights n \<sigma>1 =
         Inr (\<sigma>1\<lparr>loc_sum :=
                  foldl (\<lambda>acc k. f32_add acc
                           (f32_mul (heap (mem \<sigma>1) ! inputs ! k) (heap (mem \<sigma>1) ! weights ! k)))
                    (loc_sum \<sigma>1) [nat (loc_i \<sigma>1)..<nat n],
                loc_i := max (loc_i \<sigma>1) n\<rparr>)"
      unfolding \<sigma>1_def
      using "1.prems" by (intro "1.IH" [OF True X Y]) simp_all
    have upt: "[nat (loc_i \<sigma>)..<nat n] = nat (loc_i \<sigma>) # [nat (loc_i \<sigma>1)..<nat n]"
      using True "1.prems"(3) by (simp add: i1 upt_conv_Cons nat_add_distrib)
    show ?thesis
      unfolding step IH upt using True
      by (simp add: m1 s1 x_def y_def \<sigma>1_def)
  qed
qed

lemma perceptron_loop_oob:
  assumes "inputs < length (heap (mem \<sigma>))" and "weights < length (heap (mem \<sigma>))"
    and "0 \<le> loc_i \<sigma>"
    and "loc_i \<sigma> \<le> int (length (heap (mem \<sigma>) ! inputs))"
    and "loc_i \<sigma> \<le> int (length (heap (mem \<sigma>) ! weights))"
    and "int (length (heap (mem \<sigma>) ! inputs)) < n \<or> int (length (heap (mem \<sigma>) ! weights)) < n"
  shows "perceptron_loop inputs weights n \<sigma> = Inl OutOfBounds"
  using assms
proof (induction inputs weights n \<sigma> rule: perceptron_loop.induct)
  case (1 inputs weights n \<sigma>)
  have lt: "loc_i \<sigma> < n" using "1.prems" by linarith
  show ?case
  proof (cases "loc_i \<sigma> < int (length (heap (mem \<sigma>) ! inputs)) \<and>
                loc_i \<sigma> < int (length (heap (mem \<sigma>) ! weights))")
    case False
    then have "load (mem \<sigma>) inputs (loc_i \<sigma>) = None \<or> load (mem \<sigma>) weights (loc_i \<sigma>) = None"
      using load_out_of_bounds [of "mem \<sigma>" inputs "loc_i \<sigma>"]
        load_out_of_bounds [of "mem \<sigma>" weights "loc_i \<sigma>"] by linarith
    then show ?thesis using lt by (rule perceptron_loop_fault [rotated])
  next
    case True
    define x where "x = heap (mem \<sigma>) ! inputs ! nat (loc_i \<sigma>)"
    define y where "y = heap (mem \<sigma>) ! weights ! nat (loc_i \<sigma>)"
    have X: "load (mem \<sigma>) inputs (loc_i \<sigma>) = Some x"
      unfolding x_def using "1.prems" True by (intro load_in_bounds) simp_all
    have Y: "load (mem \<sigma>) weights (loc_i \<sigma>) = Some y"
      unfolding y_def using "1.prems" True by (intro load_in_bounds) simp_all
    have "perceptron_loop inputs weights n
            (\<sigma>\<lparr>loc_sum := f32_add (loc_sum \<sigma>) (f32_mul x y), loc_i := loc_i \<sigma> + 1\<rparr>) = Inl OutOfBounds"
      using "1.prems" True by (intro "1.IH" [OF lt X Y]) simp_all
    then show ?thesis using perceptron_loop_step [OF lt X Y] by simp
  qed
qed

section \<open>The whole call\<close>

lemma perceptron_by_weighted_sum:
  "perceptron w inputs weights bias n =
     (case weighted_sum w inputs weights bias n of
        Inl e \<Rightarrow> Inl e
      | Inr s \<Rightarrow> Inr (step_function s, w))"
proof (cases "perceptron_loop inputs weights n \<lparr>mem = w, loc_sum = bias, loc_i = 0\<rparr>")
  case (Inl e)
  then show ?thesis by (simp add: perceptron_def weighted_sum_def)
next
  case (Inr \<sigma>)
  then have "mem \<sigma> = mem \<lparr>mem = w, loc_sum = bias, loc_i = 0\<rparr>" by (rule perceptron_loop_mem)
  then show ?thesis using Inr by (simp add: perceptron_def weighted_sum_def)
qed

lemma weighted_sum_in_bounds:
  assumes "inputs < length (heap w)" and "weights < length (heap w)"
    and "n \<le> int (length (heap w ! inputs))" and "n \<le> int (length (heap w ! weights))"
  shows "weighted_sum w inputs weights bias n =
         Inr (weighted_sum_spec (heap w ! inputs) (heap w ! weights) bias (nat n))"
proof -
  define \<sigma> where "\<sigma> = \<lparr>mem = w, loc_sum = bias, loc_i = 0\<rparr>"
  have "perceptron_loop inputs weights n \<sigma> =
         Inr (\<sigma>\<lparr>loc_sum :=
                  foldl (\<lambda>acc k. f32_add acc
                           (f32_mul (heap (mem \<sigma>) ! inputs ! k) (heap (mem \<sigma>) ! weights ! k)))
                    (loc_sum \<sigma>) [nat (loc_i \<sigma>)..<nat n],
                loc_i := max (loc_i \<sigma>) n\<rparr>)"
    using assms by (intro perceptron_loop_fold) (simp_all add: \<sigma>_def)
  then show ?thesis
    by (simp add: weighted_sum_def weighted_sum_spec_def \<sigma>_def)
qed

lemma weighted_sum_out_of_bounds:
  assumes "inputs < length (heap w)" and "weights < length (heap w)"
    and "int (length (heap w ! inputs)) < n \<or> int (length (heap w ! weights)) < n"
  shows "weighted_sum w inputs weights bias n = Inl OutOfBounds"
proof -
  have "perceptron_loop inputs weights n \<lparr>mem = w, loc_sum = bias, loc_i = 0\<rparr> = Inl OutOfBounds"
    using assms by (intro perceptron_loop_oob) simp_all
  then show ?thesis by (simp add: weighted_sum_def)
qed

lemma weighted_sum_no_iteration:
  "n \<le> 0 \<Longrightarrow> weighted_sum w inputs weights bias n = Inr bias"
  by (simp add: weighted_sum_def perceptron_loop_exit)

lemma step_function_cases: "step_function x = 0 \<or> step_function x = 1"
  by (simp add: step_function_def)

lemma f32_zero: "f32_of_int 0 = Finite False 0"
  by (simp add: f32_of_int_def f32_of_rat_def)

lemma step_function_finite: "step_function (Finite s m) = (if 0 \<le> valof s m then 1 else 0)"
  by (simp add: step_function_def f32_ge_def f32_zero)

lemma step_function_infinity: "step_function (Infinity s) = (if s then 0 else 1)"
  by (simp add: step_function_def f32_ge_def f32_zero)

lemma step_function_nan: "step_function NaN = 0"
  by (simp add: step_function_def f32_ge_def f32_zero)

lemma boundary_sum:
  "weighted_sum_spec [f32_of_int 2, f32_of_int 0]
     [f32_of_double (double_const (1 / 2)), f32_of_double (- double_const (1 / 2))]
     (f32_of_double (- double_const 1)) 2 = Finite False 0"
  by code_simp

lemma step_tenth: "step_function (f32_of_double (double_const (1 / 10))) = 1"
  by code_simp

lemma step_minus_tenth: "step_function (f32_of_double (- double_const (1 / 10))) = 0"
  by code_simp

lemma demo_sum:
  "weighted_sum_spec [f32_of_int 0, f32_of_int 1]
     [f32_of_double (double_const (1 / 2)), f32_of_double (- double_const (1 / 2))]
     (f32_of_double (double_const (1 / 10))) 2 = Finite True (13421773 / 2 ^ 25)"
  by code_simp

lemma minus_four_tenths:
  "f32_of_double (- double_const (4 / 10)) = Finite True (13421773 / 2 ^ 25)"
  by code_simp

lemma step_demo: "step_function (Finite True (13421773 / 2 ^ 25)) = 0"
  by code_simp

lemma printf_d_zero: "printf_d 0 = ''0''"
  by code_simp

lemma printf_d_one: "printf_d 1 = ''1''"
  by code_simp

lemma foldl_dominated:
  assumes "k < length xs" and "f32_lt (xs ! k) x'" and "f32_lt (f32_of_int 0) (ws ! k)"
    and "dominated a1 a2"
  shows "dominated
           (foldl (\<lambda>acc j. f32_add acc (f32_mul (xs ! j) (ws ! j))) a1 js)
           (foldl (\<lambda>acc j. f32_add acc (f32_mul (xs[k := x'] ! j) (ws ! j))) a2 js)"
  using assms(4)
proof (induction js arbitrary: a1 a2)
  case Nil
  then show ?case by simp
next
  case (Cons j js)
  have "dominated (f32_mul (xs ! j) (ws ! j)) (f32_mul (xs[k := x'] ! j) (ws ! j))"
  proof (cases "j = k")
    case True
    then show ?thesis using assms(1-3) by (simp add: f32_mul_dominated)
  next
    case False
    then show ?thesis by (simp add: dominated_refl)
  qed
  with Cons.prems
  have "dominated (f32_add a1 (f32_mul (xs ! j) (ws ! j)))
                  (f32_add a2 (f32_mul (xs[k := x'] ! j) (ws ! j)))"
    by (rule dominated_add)
  then show ?case using Cons.IH by simp
qed

lemma weighted_sum_spec_dominated:
  assumes "k < length xs" and "f32_lt (xs ! k) x'" and "f32_lt (f32_of_int 0) (ws ! k)"
  shows "dominated (weighted_sum_spec xs ws bias n) (weighted_sum_spec (xs[k := x']) ws bias n)"
  unfolding weighted_sum_spec_def
  using assms dominated_refl [of bias] by (rule foldl_dominated)

section \<open>The claims\<close>

text \<open>
  C1. For every store, bias and count \<open>n\<close>, when the input vector and the weight vector
  are array objects of the store with at least \<open>n\<close> elements each, \<open>perceptron\<close> returns
  the step function of the specification's weighted sum: the accumulator that starts as
  the bias and takes \<open>input[k] \<times> weight[k]\<close> for \<open>k = 0, \<dots>, n - 1\<close> in ascending order
  (a count that is not positive gives the empty range). The store is returned as it was.
\<close>

theorem perceptron_refines_spec:
  assumes "inputs < length (heap w)" and "weights < length (heap w)"
    and "n \<le> int (length (heap w ! inputs))" and "n \<le> int (length (heap w ! weights))"
  shows "perceptron w inputs weights bias n =
         Inr (step_function (weighted_sum_spec (heap w ! inputs) (heap w ! weights) bias (nat n)), w)"
  by (simp add: perceptron_by_weighted_sum weighted_sum_in_bounds [OF assms])

theorem perceptron_refines_spec_witness:
  "(0::nat) < length (heap \<lparr>heap = [[Finite False 1, Finite False 2], [Finite False 3, Finite True 1]], stdout = []\<rparr>)
   \<and> (1::nat) < length (heap \<lparr>heap = [[Finite False 1, Finite False 2], [Finite False 3, Finite True 1]], stdout = []\<rparr>)
   \<and> perceptron \<lparr>heap = [[Finite False 1, Finite False 2], [Finite False 3, Finite True 1]], stdout = []\<rparr>
        0 1 (Finite True 2) 2 =
      Inr (step_function (weighted_sum_spec [Finite False 1, Finite False 2] [Finite False 3, Finite True 1]
             (Finite True 2) 2),
           \<lparr>heap = [[Finite False 1, Finite False 2], [Finite False 3, Finite True 1]], stdout = []\<rparr>)"
  using perceptron_refines_spec
    [of 0 "\<lparr>heap = [[Finite False 1, Finite False 2], [Finite False 3, Finite True 1]], stdout = []\<rparr>"
        1 2 "Finite True 2"]
  by simp

text \<open>
  C2. \<open>step_function\<close> is a total function of its argument alone. On a finite number it
  is 1 when the number is at least 0 and 0 otherwise; it is 1 on plus infinity, 0 on
  minus infinity and 0 on a NaN. Both zeros map to 1 (the threshold is inclusive). For
  inputs \<open>[2, 0]\<close>, weights \<open>[0.5, -0.5]\<close>, bias \<open>-1.0\<close> and count 2 the weighted sum is
  exactly \<open>+0.0\<close> and \<open>perceptron\<close> returns 1.
\<close>

theorem step_function_threshold:
  "step_function (Finite s m) = (if 0 \<le> valof s m then 1 else 0)
   \<and> step_function (Infinity s) = (if s then 0 else 1)
   \<and> step_function NaN = 0
   \<and> step_function (Finite False 0) = 1
   \<and> step_function (Finite True 0) = 1
   \<and> weighted_sum
        \<lparr>heap = [[f32_of_int 2, f32_of_int 0],
                 [f32_of_double (double_const (1 / 2)), f32_of_double (- double_const (1 / 2))]],
         stdout = out\<rparr>
        0 1 (f32_of_double (- double_const 1)) 2 = Inr (Finite False 0)
   \<and> perceptron
        \<lparr>heap = [[f32_of_int 2, f32_of_int 0],
                 [f32_of_double (double_const (1 / 2)), f32_of_double (- double_const (1 / 2))]],
         stdout = out\<rparr>
        0 1 (f32_of_double (- double_const 1)) 2 =
       Inr (1, \<lparr>heap = [[f32_of_int 2, f32_of_int 0],
                 [f32_of_double (double_const (1 / 2)), f32_of_double (- double_const (1 / 2))]],
         stdout = out\<rparr>)"
proof -
  define W where "W = \<lparr>heap = [[f32_of_int 2, f32_of_int 0],
                 [f32_of_double (double_const (1 / 2)), f32_of_double (- double_const (1 / 2))]],
         stdout = out\<rparr>"
  have "weighted_sum W 0 1 (f32_of_double (- double_const 1)) 2 =
        Inr (weighted_sum_spec (heap W ! 0) (heap W ! 1) (f32_of_double (- double_const 1)) (nat 2))"
    by (rule weighted_sum_in_bounds) (simp_all add: W_def)
  then have s: "weighted_sum W 0 1 (f32_of_double (- double_const 1)) 2 = Inr (Finite False 0)"
    by (simp add: W_def boundary_sum)
  then have p: "perceptron W 0 1 (f32_of_double (- double_const 1)) 2 = Inr (1, W)"
    by (simp add: perceptron_by_weighted_sum step_function_finite)
  show ?thesis
    using s p unfolding W_def
    by (simp add: step_function_finite step_function_infinity step_function_nan)
qed

text \<open>
  C3. Let the input vector and the weight vector be array objects of the store. When the
  count exceeds neither length, no read of \<open>perceptron\<close> leaves its array: the call
  does not end in \<open>OutOfBounds\<close> and returns a result. When the count exceeds the length
  of either vector, the call reads out of bounds: it ends in \<open>OutOfBounds\<close> (count 3
  with vectors of 2 elements, for example).
\<close>

theorem perceptron_bounds:
  assumes "inputs < length (heap w)" and "weights < length (heap w)"
  shows "(n \<le> int (length (heap w ! inputs)) \<and> n \<le> int (length (heap w ! weights)) \<longrightarrow>
            perceptron w inputs weights bias n \<noteq> Inl OutOfBounds
            \<and> (\<exists>r. perceptron w inputs weights bias n = Inr (r, w)))
       \<and> (int (length (heap w ! inputs)) < n \<or> int (length (heap w ! weights)) < n \<longrightarrow>
            perceptron w inputs weights bias n = Inl OutOfBounds)"
proof (intro conjI impI)
  assume "n \<le> int (length (heap w ! inputs)) \<and> n \<le> int (length (heap w ! weights))"
  then have "perceptron w inputs weights bias n =
      Inr (step_function (weighted_sum_spec (heap w ! inputs) (heap w ! weights) bias (nat n)), w)"
    using assms by (simp add: perceptron_by_weighted_sum weighted_sum_in_bounds)
  then show "perceptron w inputs weights bias n \<noteq> Inl OutOfBounds"
    and "\<exists>r. perceptron w inputs weights bias n = Inr (r, w)"
    by simp_all
next
  assume "int (length (heap w ! inputs)) < n \<or> int (length (heap w ! weights)) < n"
  then show "perceptron w inputs weights bias n = Inl OutOfBounds"
    using assms by (simp add: perceptron_by_weighted_sum weighted_sum_out_of_bounds)
qed

theorem perceptron_bounds_witness:
  "(0::nat) < length (heap \<lparr>heap = [[Finite False 1, Finite False 2], [Finite False 3, Finite True 1]], stdout = []\<rparr>)
   \<and> (1::nat) < length (heap \<lparr>heap = [[Finite False 1, Finite False 2], [Finite False 3, Finite True 1]], stdout = []\<rparr>)
   \<and> perceptron \<lparr>heap = [[Finite False 1, Finite False 2], [Finite False 3, Finite True 1]], stdout = []\<rparr>
        0 1 (Finite True 2) 2 \<noteq> Inl OutOfBounds
   \<and> perceptron \<lparr>heap = [[Finite False 1, Finite False 2], [Finite False 3, Finite True 1]], stdout = []\<rparr>
        0 1 (Finite True 2) 3 = Inl OutOfBounds"
  using perceptron_bounds
    [of 0 "\<lparr>heap = [[Finite False 1, Finite False 2], [Finite False 3, Finite True 1]], stdout = []\<rparr>"
        1 2 "Finite True 2"]
    perceptron_bounds
    [of 0 "\<lparr>heap = [[Finite False 1, Finite False 2], [Finite False 3, Finite True 1]], stdout = []\<rparr>"
        1 3 "Finite True 2"]
  by simp

text \<open>
  C4. When the two vectors are array objects of the store whose lengths are both the
  count, \<open>perceptron\<close> returns 0 or returns 1, and nothing else.
\<close>

theorem perceptron_binary:
  assumes "inputs < length (heap w)" and "weights < length (heap w)"
    and "int (length (heap w ! inputs)) = n" and "int (length (heap w ! weights)) = n"
  shows "perceptron w inputs weights bias n = Inr (0, w)
       \<or> perceptron w inputs weights bias n = Inr (1, w)"
proof -
  have "perceptron w inputs weights bias n =
      Inr (step_function (weighted_sum_spec (heap w ! inputs) (heap w ! weights) bias (nat n)), w)"
    using assms by (simp add: perceptron_by_weighted_sum weighted_sum_in_bounds)
  then show ?thesis
    using step_function_cases
      [of "weighted_sum_spec (heap w ! inputs) (heap w ! weights) bias (nat n)"]
    by auto
qed

theorem perceptron_binary_witness:
  "(0::nat) < length (heap \<lparr>heap = [[Finite False 1, Finite False 2], [Finite False 3, Finite True 1]], stdout = []\<rparr>)
   \<and> (1::nat) < length (heap \<lparr>heap = [[Finite False 1, Finite False 2], [Finite False 3, Finite True 1]], stdout = []\<rparr>)
   \<and> int (length [Finite False 1, Finite False 2]) = 2
   \<and> (perceptron \<lparr>heap = [[Finite False 1, Finite False 2], [Finite False 3, Finite True 1]], stdout = []\<rparr>
        0 1 (Finite True 2) 2 =
       Inr (0, \<lparr>heap = [[Finite False 1, Finite False 2], [Finite False 3, Finite True 1]], stdout = []\<rparr>)
     \<or> perceptron \<lparr>heap = [[Finite False 1, Finite False 2], [Finite False 3, Finite True 1]], stdout = []\<rparr>
        0 1 (Finite True 2) 2 =
       Inr (1, \<lparr>heap = [[Finite False 1, Finite False 2], [Finite False 3, Finite True 1]], stdout = []\<rparr>))"
  using perceptron_binary
    [of 0 "\<lparr>heap = [[Finite False 1, Finite False 2], [Finite False 3, Finite True 1]], stdout = []\<rparr>"
        1 2 "Finite True 2"]
  by simp

text \<open>
  C5. With count 0 the weighted sum is the bias itself and \<open>perceptron\<close> returns the
  step function of the bias, whatever the two array arguments are; with the bias
  \<^verbatim>\<open>0.1\<close> the result is 1 and with the bias \<^verbatim>\<open>-0.1\<close> it is 0.
\<close>

theorem perceptron_count_zero:
  "weighted_sum w inputs weights bias 0 = Inr bias
   \<and> perceptron w inputs weights bias 0 = Inr (step_function bias, w)
   \<and> perceptron w inputs weights (f32_of_double (double_const (1 / 10))) 0 = Inr (1, w)
   \<and> perceptron w inputs weights (f32_of_double (- double_const (1 / 10))) 0 = Inr (0, w)"
  by (simp add: perceptron_by_weighted_sum weighted_sum_no_iteration step_tenth step_minus_tenth)

text \<open>
  C6. Take two calls of \<open>perceptron\<close> with the same weights, bias and count, within the
  lengths of both arrays, whose inputs differ in one element only: the second call has a
  greater value there, and the weight of that element is greater than 0. Then both calls
  return, the weighted sum of the second is not less than that of the first (the
  comparison \<^verbatim>\<open><\<close> between them is false; when neither sum is a NaN the first is at most
  the second), and when the first call returns 1 so does the second.
\<close>

theorem perceptron_monotone:
  assumes "inputs < length (heap w)" and "weights < length (heap w)" and "inputs \<noteq> weights"
    and "n \<le> int (length (heap w ! inputs))" and "n \<le> int (length (heap w ! weights))"
    and "k < length (heap w ! inputs)" and "k < length (heap w ! weights)"
    and "f32_lt (heap w ! inputs ! k) x'"
    and "f32_lt (f32_of_int 0) (heap w ! weights ! k)"
  shows "\<exists>s1 s2.
           weighted_sum w inputs weights bias n = Inr s1
         \<and> weighted_sum (w\<lparr>heap := (heap w)[inputs := (heap w ! inputs)[k := x']]\<rparr>)
             inputs weights bias n = Inr s2
         \<and> \<not> f32_lt s2 s1
         \<and> (s1 \<noteq> NaN \<and> s2 \<noteq> NaN \<longrightarrow> f32_le s1 s2)
         \<and> (perceptron w inputs weights bias n = Inr (1, w) \<longrightarrow>
              perceptron (w\<lparr>heap := (heap w)[inputs := (heap w ! inputs)[k := x']]\<rparr>)
                inputs weights bias n =
              Inr (1, w\<lparr>heap := (heap w)[inputs := (heap w ! inputs)[k := x']]\<rparr>))"
proof -
  define xs where "xs = heap w ! inputs"
  define ws where "ws = heap w ! weights"
  define w' where "w' = w\<lparr>heap := (heap w)[inputs := xs[k := x']]\<rparr>"
  define s1 where "s1 = weighted_sum_spec xs ws bias (nat n)"
  define s2 where "s2 = weighted_sum_spec (xs[k := x']) ws bias (nat n)"
  have hx: "heap w' ! inputs = xs[k := x']" and hw: "heap w' ! weights = ws"
    using assms(1-3) by (simp_all add: w'_def ws_def)
  have r1: "weighted_sum w inputs weights bias n = Inr s1"
    unfolding s1_def xs_def ws_def using assms(1,2,4,5) by (rule weighted_sum_in_bounds)
  have "weighted_sum w' inputs weights bias n =
          Inr (weighted_sum_spec (heap w' ! inputs) (heap w' ! weights) bias (nat n))"
  proof (rule weighted_sum_in_bounds)
    show "inputs < length (heap w')" using assms(1) by (simp add: w'_def)
    show "weights < length (heap w')" using assms(2) by (simp add: w'_def)
    show "n \<le> int (length (heap w' ! inputs))" using assms(4) by (simp add: hx xs_def)
    show "n \<le> int (length (heap w' ! weights))" using assms(5) by (simp add: hw ws_def)
  qed
  then have r2: "weighted_sum w' inputs weights bias n = Inr s2"
    by (simp add: hx hw s2_def)
  have d: "dominated s1 s2"
    unfolding s1_def s2_def using assms(6,8,9)
    by (intro weighted_sum_spec_dominated) (simp_all add: xs_def ws_def)
  have nl: "\<not> f32_lt s2 s1" using d by (rule dominated_final(1))
  have le: "f32_le s1 s2" if "s1 \<noteq> NaN" "s2 \<noteq> NaN"
    using d that by (cases s1; cases s2) (auto simp add: dominated_def split: if_splits)
  have st: "step_function s2 = 1" if "step_function s1 = 1"
    using d that by (rule dominated_final(2))
  have p: "perceptron w' inputs weights bias n = Inr (1, w')"
    if "perceptron w inputs weights bias n = Inr (1, w)"
    using that st by (simp add: perceptron_by_weighted_sum r1 r2)
  show ?thesis
    using r1 r2 nl le p unfolding w'_def xs_def by blast
qed

theorem perceptron_monotone_witness:
  "f32_lt (Finite False 1) (Finite False 5)
   \<and> f32_lt (f32_of_int 0) (Finite False 3)
   \<and> perceptron \<lparr>heap = [[Finite False 1, Finite False 2], [Finite False 3, Finite True 1]], stdout = []\<rparr>
        0 1 (Finite True 1) 2 =
       Inr (1, \<lparr>heap = [[Finite False 1, Finite False 2], [Finite False 3, Finite True 1]], stdout = []\<rparr>)
   \<and> perceptron \<lparr>heap = [[Finite False 5, Finite False 2], [Finite False 3, Finite True 1]], stdout = []\<rparr>
        0 1 (Finite True 1) 2 =
       Inr (1, \<lparr>heap = [[Finite False 5, Finite False 2], [Finite False 3, Finite True 1]], stdout = []\<rparr>)"
proof -
  let ?W = "\<lparr>heap = [[Finite False 1, Finite False 2], [Finite False 3, Finite True 1]], stdout = []\<rparr>"
  have h: "perceptron ?W 0 1 (Finite True 1) 2 = Inr (1, ?W)"
    by code_simp
  have a: "(0::nat) < length (heap ?W)" "(1::nat) < length (heap ?W)" "(0::nat) \<noteq> 1"
    "2 \<le> int (length (heap ?W ! 0))" "2 \<le> int (length (heap ?W ! 1))"
    "0 < length (heap ?W ! 0)" "0 < length (heap ?W ! 1)"
    "f32_lt (heap ?W ! 0 ! 0) (Finite False 5)"
    "f32_lt (f32_of_int 0) (heap ?W ! 1 ! 0)"
    by (simp_all add: f32_zero)
  have "perceptron ?W 0 1 (Finite True 1) 2 = Inr (1, ?W) \<longrightarrow>
        perceptron (?W\<lparr>heap := (heap ?W)[0 := (heap ?W ! 0)[0 := Finite False 5]]\<rparr>) 0 1 (Finite True 1) 2 =
        Inr (1, ?W\<lparr>heap := (heap ?W)[0 := (heap ?W ! 0)[0 := Finite False 5]]\<rparr>)"
    using perceptron_monotone [OF a, of "Finite True 1"] by blast
  then show ?thesis using h by (simp add: f32_zero)
qed

text \<open>
  C7. No value is rejected for not being finite: a call whose weighted sum is a NaN
  returns normally, and it returns 0, because the comparison \<^verbatim>\<open>>= 0\<close> of
  \<open>step_function\<close> is false on a NaN.
\<close>

theorem perceptron_nan_sum:
  assumes "weighted_sum w inputs weights bias n = Inr NaN"
  shows "perceptron w inputs weights bias n = Inr (0, w)"
  using assms by (simp add: perceptron_by_weighted_sum step_function_nan)

theorem perceptron_nan_sum_witness:
  "weighted_sum \<lparr>heap = [[Infinity False], [Finite False 0]], stdout = []\<rparr> 0 1 (Finite False 1) 1 = Inr NaN
   \<and> perceptron \<lparr>heap = [[Infinity False], [Finite False 0]], stdout = []\<rparr> 0 1 (Finite False 1) 1 =
       Inr (0, \<lparr>heap = [[Infinity False], [Finite False 0]], stdout = []\<rparr>)"
proof -
  have h: "weighted_sum \<lparr>heap = [[Infinity False], [Finite False 0]], stdout = []\<rparr> 0 1 (Finite False 1) 1 = Inr NaN"
    by code_simp
  show ?thesis using h perceptron_nan_sum [OF h] by simp
qed

text \<open>
  C8. \<open>main\<close> evaluates the perceptron on inputs \<open>[0, 1]\<close>, weights \<open>[0.5, -0.5]\<close>, bias
  \<^verbatim>\<open>0.1\<close> and count 2. The weighted sum is the \<^verbatim>\<open>float\<close> \<^verbatim>\<open>-0.4\<close> (the binary32 number
  nearest to \<open>-0.4\<close>, which is \<open>-13421773 / 2\<^sup>2\<^sup>5\<close>) and the result is 0. From every
  store, \<open>main\<close> appends the one line \<^verbatim>\<open>Perceptron Output: 0\<close> to the standard output,
  leaves the arrays of the store as they were, and exits with code 0.
\<close>

theorem main_c_output:
  "main_c w = Inr (0, w\<lparr>stdout := stdout w @ ''Perceptron Output: 0'' @ [CHR 0x0A]\<rparr>)
   \<and> weighted_sum
        (w\<lparr>heap := heap w @
              [[f32_of_int 0, f32_of_int 1],
               [f32_of_double (double_const (1 / 2)), f32_of_double (- double_const (1 / 2))]]\<rparr>)
        (length (heap w)) (length (heap w) + 1) (f32_of_double (double_const (1 / 10))) 2 =
       Inr (f32_of_double (- double_const (4 / 10)))
   \<and> f32_of_double (- double_const (4 / 10)) = Finite True (13421773 / 2 ^ 25)"
proof -
  define A where "A = [f32_of_int 0, f32_of_int 1]"
  define B where "B = [f32_of_double (double_const (1 / 2)), f32_of_double (- double_const (1 / 2))]"
  define b where "b = f32_of_double (double_const (1 / 10))"
  define w1 where "w1 = w\<lparr>heap := heap w @ [A, B]\<rparr>"
  have hA: "heap w1 ! length (heap w) = A" and hB: "heap w1 ! (length (heap w) + 1) = B"
    by (simp_all add: w1_def nth_append)
  have hB': "heap w1 ! Suc (length (heap w)) = B" using hB by simp
  have "weighted_sum w1 (length (heap w)) (length (heap w) + 1) b 2 =
        Inr (weighted_sum_spec (heap w1 ! length (heap w)) (heap w1 ! (length (heap w) + 1)) b (nat 2))"
  proof (rule weighted_sum_in_bounds)
    show "length (heap w) < length (heap w1)" by (simp add: w1_def)
    show "length (heap w) + 1 < length (heap w1)" by (simp add: w1_def)
    show "2 \<le> int (length (heap w1 ! length (heap w)))" unfolding hA by (simp add: A_def)
    show "2 \<le> int (length (heap w1 ! (length (heap w) + 1)))" unfolding hB by (simp add: B_def)
  qed
  then have s: "weighted_sum w1 (length (heap w)) (length (heap w) + 1) b 2 =
        Inr (Finite True (13421773 / 2 ^ 25))"
    using demo_sum by (simp add: hA hB' A_def B_def b_def)
  then have p: "perceptron w1 (length (heap w)) (length (heap w) + 1) b 2 = Inr (0, w1)"
    using step_demo by (simp add: perceptron_by_weighted_sum)
  have "main_c w = Inr (0, w1\<lparr>heap := take (length (heap w)) (heap w1),
           stdout := stdout w1 @ ''Perceptron Output: '' @ printf_d 0 @ [CHR 0x0A]\<rparr>)"
    using p by (simp add: main_c_def Let_def w1_def A_def B_def b_def)
  then have m: "main_c w = Inr (0, w\<lparr>stdout := stdout w @ ''Perceptron Output: 0'' @ [CHR 0x0A]\<rparr>)"
    by (simp add: w1_def printf_d_zero)
  show ?thesis
    using m s minus_four_tenths by (simp add: w1_def A_def B_def b_def)
qed

text \<open>
  C9. A call of \<open>perceptron\<close> that returns leaves the whole store as it was: the input
  vector, the weight vector (also when both arguments designate the same array), every
  other array and the standard output. A second call with the same arguments, from the
  store the first one left, returns the same result.
\<close>

theorem perceptron_frame:
  assumes "perceptron w inputs weights bias n = Inr (r, w')"
  shows "w' = w
       \<and> heap w' ! inputs = heap w ! inputs
       \<and> heap w' ! weights = heap w ! weights
       \<and> stdout w' = stdout w
       \<and> perceptron w' inputs weights bias n = Inr (r, w')"
proof -
  have "w' = w"
    using assms by (simp add: perceptron_by_weighted_sum split: sum.splits)
  then show ?thesis using assms by simp
qed

theorem perceptron_frame_witness:
  "perceptron \<lparr>heap = [[Finite False 1, Finite False 2]], stdout = ''log''\<rparr> 0 0 (Finite True 2) 2 =
     Inr (1, \<lparr>heap = [[Finite False 1, Finite False 2]], stdout = ''log''\<rparr>)
   \<and> stdout \<lparr>heap = [[Finite False 1, Finite False 2]], stdout = ''log''\<rparr> = ''log''"
proof -
  have h: "perceptron \<lparr>heap = [[Finite False 1, Finite False 2]], stdout = ''log''\<rparr> 0 0 (Finite True 2) 2 =
     Inr (1, \<lparr>heap = [[Finite False 1, Finite False 2]], stdout = ''log''\<rparr>)"
    by code_simp
  show ?thesis using h perceptron_frame [OF h] by simp
qed

text \<open>
  C10. With a negative count the loop of \<open>perceptron\<close> is left at once, with \<^verbatim>\<open>sum\<close>
  still the bias: the result is the step function of the bias, as for count 0, whatever
  the two array arguments are.
\<close>

theorem perceptron_negative_count:
  assumes "n < 0"
  shows "perceptron_loop inputs weights n \<lparr>mem = w, loc_sum = bias, loc_i = 0\<rparr> =
           Inr \<lparr>mem = w, loc_sum = bias, loc_i = 0\<rparr>
       \<and> perceptron w inputs weights bias n = Inr (step_function bias, w)
       \<and> perceptron w inputs weights bias n = perceptron w inputs weights bias 0"
  using assms
  by (simp add: perceptron_by_weighted_sum weighted_sum_no_iteration perceptron_loop_exit)

theorem perceptron_negative_count_witness:
  "(- 1 :: int) < 0
   \<and> perceptron \<lparr>heap = [], stdout = []\<rparr> 5 7 (Finite True 2) (- 1) =
       Inr (0, \<lparr>heap = [], stdout = []\<rparr>)"
proof -
  have h: "(- 1 :: int) < 0" by simp
  have "step_function (Finite True 2) = 0" by (simp add: step_function_finite)
  then show ?thesis
    using h perceptron_negative_count [OF h, of 5 7 "\<lparr>heap = [], stdout = []\<rparr>" "Finite True 2"]
    by simp
qed

end
